theory Spec2Isabelle
  imports Main "HOL-Library.Sublist" "HOL-Library.Multiset"
begin

section \<open>Python strings and integers\<close>

text \<open>
  A Python \<^verbatim>\<open>str\<close> is modelled as a \<^typ>\<open>string\<close>: a list of characters, one
  \<^typ>\<open>char\<close> per code point (the model covers the code points below 256).
  Python's \<^verbatim>\<open>int\<close> is \<^typ>\<open>int\<close>.
\<close>

definition LF :: char where
  "LF = CHR 0x0A"

definition CR :: char where
  "CR = CHR 0x0D"

definition dquote :: char where
  "dquote = CHR 0x22"

definition digit_char :: "nat \<Rightarrow> char" where
  "digit_char d = ''0123456789'' ! d"

text \<open>\<^verbatim>\<open>str(n)\<close> for a non-negative integer: its decimal digits.\<close>

function str_nat :: "nat \<Rightarrow> string" where
  "str_nat n = (if n < 10 then [digit_char n] else str_nat (n div 10) @ [digit_char (n mod 10)])"
  by pat_completeness auto
termination
  by (relation "measure (\<lambda>n. n)") auto

declare str_nat.simps [simp del]

text \<open>The rendering of an integer inside an f-string, \<^verbatim>\<open>f"{attempt}"\<close>.\<close>

definition str_int :: "int \<Rightarrow> string" where
  "str_int i = (if i < 0 then CHR ''-'' # str_nat (nat (- i)) else str_nat (nat i))"

section \<open>Paths and file names (download\_link, lines 90 to 98)\<close>

text \<open>\<^verbatim>\<open>s.split(sep)\<close> for a one-character separator: never the empty list.\<close>

fun split_on :: "char \<Rightarrow> string \<Rightarrow> string list" where
  "split_on sep [] = [[]]"
| "split_on sep (c # cs) =
     (if c = sep then [] # split_on sep cs
      else (case split_on sep cs of
              [] \<Rightarrow> [[c]]
            | w # ws \<Rightarrow> (c # w) # ws))"

text \<open>\<^verbatim>\<open>os.path.join(a, b)\<close> of posixpath, for two arguments.\<close>

definition path_join :: "string \<Rightarrow> string \<Rightarrow> string" where
  "path_join a b =
     (if prefix ''/'' b then b
      else if a = [] \<or> suffix ''/'' a then a @ b
      else a @ ''/'' @ b)"

text \<open>\<^verbatim>\<open>os.path.basename(p)\<close> of posixpath: what follows the last slash.\<close>

definition basename :: "string \<Rightarrow> string" where
  "basename p = rev (takeWhile (\<lambda>c. c \<noteq> CHR ''/'') (rev p))"

text \<open>
  The group of the regular expression \<^verbatim>\<open>filename="(.+)"\<close> once \<^verbatim>\<open>filename="\<close> has
  matched: \<^verbatim>\<open>.+\<close> is greedy and matches no line feed, so the group runs to the last
  double quote of the current line, and has at least one character.
\<close>

definition capture_group :: "string \<Rightarrow> string option" where
  "capture_group rest =
     (let seg = takeWhile (\<lambda>c. c \<noteq> LF) rest;
          js = filter (\<lambda>j. 1 \<le> j \<and> seg ! j = dquote) [0..<length seg]
      in if js = [] then None else Some (take (last js) seg))"

definition filename_eq :: string where
  "filename_eq = ''filename='' @ [dquote]"

text \<open>
  \<^verbatim>\<open>re.findall('filename="(.+)"', s)\<close>: the groups of the non-overlapping matches, from
  left to right; after a match the scan goes on behind its closing quote.
\<close>

function re_findall_filename :: "string \<Rightarrow> string list" where
  "re_findall_filename [] = []"
| "re_findall_filename (c # cs) =
     (if prefix filename_eq (c # cs) then
        (case capture_group (drop (length filename_eq) (c # cs)) of
           None \<Rightarrow> re_findall_filename cs
         | Some g \<Rightarrow> g # re_findall_filename (drop (length filename_eq + length g + 1) (c # cs)))
      else re_findall_filename cs)"
  by pat_completeness auto
termination
  by (relation "measure length") auto

text \<open>
  Lines 90 to 95: the header \<^verbatim>\<open>Content-Disposition\<close> is \<open>None\<close> when absent; an
  empty header is falsy, as is an empty list of matches.
\<close>

definition local_filename :: "string \<Rightarrow> string \<Rightarrow> string option \<Rightarrow> string" where
  "local_filename path url content_disposition =
     (case content_disposition of
        None \<Rightarrow> path_join path (last (split_on CHR ''/'' url))
      | Some h \<Rightarrow>
          (if h \<noteq> [] then
             (case re_findall_filename h of
                g # gs \<Rightarrow> path_join path g
              | [] \<Rightarrow> path_join path (last (split_on CHR ''/'' url)))
           else path_join path (last (split_on CHR ''/'' url))))"

text \<open>
  Lines 97 and 98. \<^verbatim>\<open>urllib.parse.unquote\<close> is a library function, taken as the
  parameter \<open>unquote\<close>.
\<close>

definition readable_name :: "(string \<Rightarrow> string) \<Rightarrow> string \<Rightarrow> string" where
  "readable_name unquote local = unquote (basename local)"

definition display_name :: "string \<Rightarrow> string" where
  "display_name readable =
     (if length readable \<le> 30 then readable else take 27 readable @ ''...'')"

section \<open>The retrying fetcher (download\_link)\<close>

text \<open>
  What one pass through the \<^verbatim>\<open>try\<close> block does is decided by the network and the
  file system: either an exception is raised somewhere in the block (\<open>Raised e\<close>, with
  \<open>e\<close> the text \<^verbatim>\<open>str(e)\<close>; every such exception is caught by
  \<^verbatim>\<open>except Exception\<close>), or the block runs to its end (\<open>Completed h\<close>, with \<open>h\<close>
  the response's \<^verbatim>\<open>Content-Disposition\<close> header).
\<close>

datatype attempt_result = Raised string | Completed "string option"

text \<open>
  The effects of the function that the properties speak about: the requests issued, the
  lines printed, and the text appended to the error log file. The handler's own append
  and print are taken to succeed; the bytes of the downloaded file are not tracked.
\<close>

record world =
  gets :: nat
  console :: "string list"
  log_text :: string

definition retry_notice :: "string \<Rightarrow> int \<Rightarrow> int \<Rightarrow> string" where
  "retry_notice url attempt retries =
     ''Retrying '' @ url @ '' ('' @ str_int attempt @ ''/'' @ str_int retries @ '')...''"

definition log_line :: "string \<Rightarrow> int \<Rightarrow> string \<Rightarrow> string" where
  "log_line url retries e =
     ''Failed to download '' @ url @ '' after '' @ str_int retries @ '' attempts: '' @ e @ [LF]"

definition failure_message :: "string \<Rightarrow> string \<Rightarrow> string" where
  "failure_message url e = ''Failed to download '' @ url @ '': '' @ e"

definition success_message :: "string \<Rightarrow> string \<Rightarrow> string" where
  "success_message url local = ''Downloaded '' @ url @ '' to '' @ local"

text \<open>
  The \<^verbatim>\<open>while attempt < retries\<close> loop. \<open>net i\<close> is the result of the \<open>i\<close>-th request
  the process issues. The value is \<open>None\<close> when the loop ends without a
  \<^verbatim>\<open>return\<close>, as Python's implicit \<^verbatim>\<open>None\<close>.
\<close>

function download_loop ::
  "(nat \<Rightarrow> attempt_result) \<Rightarrow> string \<Rightarrow> string \<Rightarrow> int \<Rightarrow> int \<Rightarrow> world \<Rightarrow> string option \<times> world"
where
  "download_loop net url path retries attempt w =
     (if attempt < retries then
        (case net (gets w) of
           Completed h \<Rightarrow>
             (Some (success_message url (local_filename path url h)), w\<lparr>gets := gets w + 1\<rparr>)
         | Raised e \<Rightarrow>
             (if attempt + 1 = retries then
                (Some (failure_message url e),
                 w\<lparr>gets := gets w + 1, log_text := log_text w @ log_line url retries e\<rparr>)
              else
                download_loop net url path retries (attempt + 1)
                  (w\<lparr>gets := gets w + 1,
                     console := console w @ [retry_notice url (attempt + 1) retries]\<rparr>)))
      else (None, w))"
  by pat_completeness auto
termination
  by (relation "measure (\<lambda>(net, url, path, retries, attempt, w). nat (retries - attempt))") auto

declare download_loop.simps [simp del]

definition download_link ::
  "(nat \<Rightarrow> attempt_result) \<Rightarrow> string \<Rightarrow> string \<Rightarrow> int \<Rightarrow> world \<Rightarrow> string option \<times> world"
where
  "download_link net url path retries w = download_loop net url path retries 0 w"

section \<open>The fetcher with the exceptions that leave it\<close>

text \<open>
  The same function, with the exceptions kept apart by what happens to them. An
  exception raised in the \<^verbatim>\<open>try\<close> block is an instance of \<^verbatim>\<open>Exception\<close>
  (\<open>OrdinaryException\<close>), which \<^verbatim>\<open>except Exception\<close> takes, or of
  \<^verbatim>\<open>BaseException\<close> only (\<open>BaseExceptionOnly\<close>, as \<^verbatim>\<open>KeyboardInterrupt\<close> and
  \<^verbatim>\<open>SystemExit\<close>), which passes the handler. The handler's own statements are outside
  every \<^verbatim>\<open>try\<close>: \<open>fault i\<close> is the exception, if any, that the handler's
  \<^verbatim>\<open>open\<close>, \<^verbatim>\<open>write\<close> or \<^verbatim>\<open>print\<close> raises after the \<open>i\<close>-th request, and it
  leaves the function. The value is \<open>Inl x\<close> when the exception \<open>x\<close> leaves the
  function, and \<open>Inr v\<close> when the function returns \<open>v\<close>.
\<close>

datatype exn_kind = OrdinaryException | BaseExceptionOnly

datatype exn = Exn exn_kind string

datatype try_result = TryRaised exn | TryCompleted "string option"

function download_loop_exn ::
  "(nat \<Rightarrow> try_result) \<Rightarrow> (nat \<Rightarrow> exn option) \<Rightarrow> string \<Rightarrow> string \<Rightarrow> int \<Rightarrow> int \<Rightarrow> world
   \<Rightarrow> (exn + string option) \<times> world"
where
  "download_loop_exn net fault url path retries attempt w =
     (if attempt < retries then
        (case net (gets w) of
           TryCompleted h \<Rightarrow>
             (Inr (Some (success_message url (local_filename path url h))),
              w\<lparr>gets := gets w + 1\<rparr>)
         | TryRaised (Exn kind e) \<Rightarrow>
             (if kind = BaseExceptionOnly then (Inl (Exn kind e), w\<lparr>gets := gets w + 1\<rparr>)
              else if attempt + 1 = retries then
                (case fault (gets w) of
                   Some x \<Rightarrow> (Inl x, w\<lparr>gets := gets w + 1\<rparr>)
                 | None \<Rightarrow>
                     (Inr (Some (failure_message url e)),
                      w\<lparr>gets := gets w + 1,
                        log_text := log_text w @ log_line url retries e\<rparr>))
              else
                (case fault (gets w) of
                   Some x \<Rightarrow> (Inl x, w\<lparr>gets := gets w + 1\<rparr>)
                 | None \<Rightarrow>
                     download_loop_exn net fault url path retries (attempt + 1)
                       (w\<lparr>gets := gets w + 1,
                          console := console w @ [retry_notice url (attempt + 1) retries]\<rparr>))))
      else (Inr None, w))"
  by pat_completeness auto
termination
  by (relation "measure (\<lambda>(net, fault, url, path, retries, attempt, w). nat (retries - attempt))")
    auto

declare download_loop_exn.simps [simp del]

definition download_link_exn ::
  "(nat \<Rightarrow> try_result) \<Rightarrow> (nat \<Rightarrow> exn option) \<Rightarrow> string \<Rightarrow> string \<Rightarrow> int \<Rightarrow> world
   \<Rightarrow> (exn + string option) \<times> world"
where
  "download_link_exn net fault url path retries w =
     download_loop_exn net fault url path retries 0 w"

text \<open>
  \<open>plain t\<close> is the attempt \<open>t\<close> as \<open>download_loop\<close> sees it. \<open>caught t\<close> holds when
  \<open>t\<close> runs to its end or raises an instance of \<^verbatim>\<open>Exception\<close>, which the handler
  takes.
\<close>

fun plain :: "try_result \<Rightarrow> attempt_result" where
  "plain (TryRaised (Exn kind e)) = Raised e"
| "plain (TryCompleted h) = Completed h"

fun caught :: "try_result \<Rightarrow> bool" where
  "caught (TryRaised (Exn kind e)) = (kind = OrdinaryException)"
| "caught (TryCompleted h) = True"

section \<open>The matcher (fuzzy\_match)\<close>

text \<open>
  A link is the dictionary \<^verbatim>\<open>{'href': ..., 'text': ...}\<close> built by \<^verbatim>\<open>extract_links\<close>;
  the field \<^verbatim>\<open>text\<close> is named \<open>link_text\<close> here.
\<close>

record link =
  href :: string
  link_text :: string

text \<open>
  Lines 61 and 62. \<^verbatim>\<open>fuzz.partial_ratio\<close> and \<^verbatim>\<open>str.lower\<close> are library functions,
  taken as the parameters \<open>partial_ratio\<close> and \<open>lower\<close>; the score is a number, of any
  linearly ordered type with a zero.
\<close>

definition link_score ::
  "(string \<Rightarrow> string \<Rightarrow> 's) \<Rightarrow> (string \<Rightarrow> string) \<Rightarrow> string \<Rightarrow> link \<Rightarrow> 's" where
  "link_score partial_ratio lower keyword l =
     (let text = link_text l @ '' '' @ href l
      in partial_ratio (lower keyword) (lower text))"

text \<open>The \<^verbatim>\<open>for link in links\<close> loop, appending to \<^verbatim>\<open>scored_links\<close>.\<close>

fun score_links ::
  "(string \<Rightarrow> string \<Rightarrow> 's::{linorder,zero}) \<Rightarrow> (string \<Rightarrow> string) \<Rightarrow> string \<Rightarrow> link list \<Rightarrow>
   ('s \<times> string) list \<Rightarrow> ('s \<times> string) list" where
  "score_links partial_ratio lower keyword [] scored_links = scored_links"
| "score_links partial_ratio lower keyword (l # links) scored_links =
     (let score = link_score partial_ratio lower keyword l
      in score_links partial_ratio lower keyword links
           (if score > 0 then scored_links @ [(score, href l)] else scored_links))"

text \<open>
  \<^verbatim>\<open>xs.sort(reverse=True, key=f)\<close>: the list is reversed, sorted stably by ascending
  key, and reversed again, which is how CPython keeps the sort stable under
  \<^verbatim>\<open>reverse=True\<close>.
\<close>

definition sort_reverse_key :: "('a \<Rightarrow> 'k::linorder) \<Rightarrow> 'a list \<Rightarrow> 'a list" where
  "sort_reverse_key f xs = rev (sort_key f (rev xs))"

text \<open>
  The slice \<^verbatim>\<open>xs[:stop]\<close>: everything for \<^verbatim>\<open>None\<close>, the first \<open>k\<close> elements for
  \<open>k \<ge> 0\<close>, and all but the last \<open>-k\<close> elements for \<open>k < 0\<close>.
\<close>

definition slice_to :: "int option \<Rightarrow> 'a list \<Rightarrow> 'a list" where
  "slice_to stop xs =
     (case stop of
        None \<Rightarrow> xs
      | Some k \<Rightarrow> if 0 \<le> k then take (nat k) xs else take (nat (int (length xs) + k)) xs)"

definition fuzzy_match ::
  "(string \<Rightarrow> string \<Rightarrow> 's::{linorder,zero}) \<Rightarrow> (string \<Rightarrow> string) \<Rightarrow> link list \<Rightarrow> string \<Rightarrow>
   int option \<Rightarrow> string list" where
  "fuzzy_match partial_ratio lower links keyword topn =
     (let scored_links = score_links partial_ratio lower keyword links [];
          sorted_links = sort_reverse_key fst scored_links
      in map snd (slice_to topn sorted_links))"

section \<open>The report file (save\_links, read\_links)\<close>

text \<open>\<^verbatim>\<open>str.isspace\<close> on the code points below 256.\<close>

definition py_isspace :: "char \<Rightarrow> bool" where
  "py_isspace c \<longleftrightarrow> (of_char c :: nat) \<in> {9, 10, 11, 12, 13, 28, 29, 30, 31, 32, 133, 160}"

text \<open>\<^verbatim>\<open>s.strip()\<close>: white space removed at both ends.\<close>

definition py_strip :: "string \<Rightarrow> string" where
  "py_strip s = rev (dropWhile py_isspace (rev (dropWhile py_isspace s)))"

text \<open>
  Reading a file opened in text mode: \<^verbatim>\<open>\r\n\<close> and a lone \<^verbatim>\<open>\r\<close> become
  \<^verbatim>\<open>\n\<close> (universal newlines); iterating over the file yields its lines, each with
  its line feed, the last one without when the file does not end in one. Writing is the
  identity (the line separator of POSIX).
\<close>

fun universal_newlines :: "string \<Rightarrow> string" where
  "universal_newlines [] = []"
| "universal_newlines (c # cs) =
     (if c = CR then
        (case cs of
           [] \<Rightarrow> [LF]
         | d # ds \<Rightarrow> if d = LF then LF # universal_newlines ds else LF # universal_newlines cs)
      else c # universal_newlines cs)"

fun lines_from :: "string \<Rightarrow> string \<Rightarrow> string list" where
  "lines_from cur [] = (if cur = [] then [] else [cur])"
| "lines_from cur (c # cs) =
     (if c = LF then (cur @ [c]) # lines_from [] cs else lines_from (cur @ [c]) cs)"

definition file_lines :: "string \<Rightarrow> string list" where
  "file_lines content = lines_from [] (universal_newlines content)"

text \<open>\<^verbatim>\<open>re.match(r'^https?://', s)\<close>, as a truth value.\<close>

definition re_match_http :: "string \<Rightarrow> bool" where
  "re_match_http s \<longleftrightarrow> prefix ''http://'' s \<or> prefix ''https://'' s"

text \<open>
  The files by their paths, and the lines printed. Opening the output file for writing
  is taken to succeed.
\<close>

record report_world =
  files :: "string \<rightharpoonup> string"
  printed :: "string list"

text \<open>The inner loop of \<^verbatim>\<open>save_links\<close>; \<open>f\<close> is the text written so far.\<close>

fun write_links :: "string list \<Rightarrow> string \<Rightarrow> string" where
  "write_links [] f = f"
| "write_links (link # links) f = write_links links (f @ link @ [LF])"

text \<open>
  The outer loop, over \<^verbatim>\<open>keyword_links.items()\<close>: the dictionary is the list of its
  items in insertion order.
\<close>

fun write_blocks :: "(string \<times> string list) list \<Rightarrow> string \<Rightarrow> string" where
  "write_blocks [] f = f"
| "write_blocks ((keyword, links) # items) f =
     write_blocks items (write_links links (f @ ''--- '' @ keyword @ '' ---'' @ [LF]) @ [LF])"

definition save_links ::
  "(string \<times> string list) list \<Rightarrow> string \<Rightarrow> report_world \<Rightarrow> report_world" where
  "save_links keyword_links output_file rw =
     rw\<lparr>files := (files rw)(output_file \<mapsto> write_blocks keyword_links []),
        printed := printed rw @ [''Links saved to '' @ output_file]\<rparr>"

datatype exit = SystemExit string

definition read_links :: "string \<Rightarrow> report_world \<Rightarrow> exit + string list" where
  "read_links link_file rw =
     (case files rw link_file of
        None \<Rightarrow> Inl (SystemExit (''Error: Link file '' @ link_file @ '' not found.''))
      | Some content \<Rightarrow>
          Inr (map py_strip (filter (\<lambda>line. re_match_http (py_strip line)) (file_lines content))))"

section \<open>The specification's notions\<close>

text \<open>
  \<open>ys\<close> is \<open>xs\<close> sorted by descending key, stably: the keys descend along \<open>ys\<close>, and
  the elements of each key are those of \<open>xs\<close>, in the order they have in \<open>xs\<close>.
\<close>

definition stable_desc_sort_of :: "('a \<Rightarrow> 'k::linorder) \<Rightarrow> 'a list \<Rightarrow> 'a list \<Rightarrow> bool" where
  "stable_desc_sort_of f ys xs \<longleftrightarrow>
     sorted_wrt (\<lambda>a b. f b \<le> f a) ys \<and> (\<forall>k. filter (\<lambda>x. f x = k) ys = filter (\<lambda>x. f x = k) xs)"

text \<open>
  The header \<open>h\<close> holds a match of the pattern \<^verbatim>\<open>filename="(.+)"\<close> whose group is
  \<open>g\<close>.
\<close>

definition matches_filename :: "string \<Rightarrow> string \<Rightarrow> bool" where
  "matches_filename h g \<longleftrightarrow>
     (\<exists>pre post. h = pre @ filename_eq @ g @ dquote # post \<and> g \<noteq> [] \<and> LF \<notin> set g)"

text \<open>
  The block of one keyword in the report: the header line, one line per link, and a
  blank line.
\<close>

definition report_block :: "string \<times> string list \<Rightarrow> string" where
  "report_block kl =
     ''--- '' @ fst kl @ '' ---'' @ [LF] @ concat (map (\<lambda>link. link @ [LF]) (snd kl)) @ [LF]"

definition block_lines :: "string \<times> string list \<Rightarrow> string list" where
  "block_lines kl = (''--- '' @ fst kl @ '' ---'') # snd kl @ [[]]"

text \<open>A keyword without a line break; a link that starts as a URL and has no white space.\<close>

definition one_line :: "string \<Rightarrow> bool" where
  "one_line k \<longleftrightarrow> LF \<notin> set k \<and> CR \<notin> set k"

definition clean_href :: "string \<Rightarrow> bool" where
  "clean_href h \<longleftrightarrow> re_match_http h \<and> list_all (\<lambda>c. \<not> py_isspace c) h"

definition clean_report :: "(string \<times> string list) list \<Rightarrow> bool" where
  "clean_report keyword_links \<longleftrightarrow>
     list_all (\<lambda>kl. one_line (fst kl) \<and> list_all clean_href (snd kl)) keyword_links"

section \<open>Concrete inputs\<close>

definition always_refused :: "nat \<Rightarrow> attempt_result" where
  "always_refused i = Raised ''refused''"

definition third_time_lucky :: "nat \<Rightarrow> attempt_result" where
  "third_time_lucky i = (if i < 2 then Raised ''timeout'' else Completed None)"

definition w0 :: world where
  "w0 = \<lparr>gets = 0, console = [], log_text = []\<rparr>"

definition refused_exn :: "nat \<Rightarrow> try_result" where
  "refused_exn i = TryRaised (Exn OrdinaryException ''refused'')"

definition interrupted :: "nat \<Rightarrow> try_result" where
  "interrupted i = TryRaised (Exn BaseExceptionOnly ''KeyboardInterrupt'')"

definition lucky_exn :: "nat \<Rightarrow> try_result" where
  "lucky_exn i =
     (if i < 2 then TryRaised (Exn OrdinaryException ''timeout'') else TryCompleted None)"

definition no_fault :: "nat \<Rightarrow> exn option" where
  "no_fault i = None"

definition unwritable_log :: "nat \<Rightarrow> exn option" where
  "unwritable_log i =
     (if i = 2 then Some (Exn OrdinaryException ''Permission denied'') else None)"


text \<open>
  Stand-ins for the library functions at the concrete inputs below: \<open>ascii_lower\<close> is
  \<^verbatim>\<open>str.lower\<close> on ASCII text, and \<open>verbatim_ratio\<close> gives 100 where the first string
  occurs verbatim in the second, as \<^verbatim>\<open>fuzz.partial_ratio\<close> does there.
\<close>

definition ascii_lower :: "string \<Rightarrow> string" where
  "ascii_lower s =
     map (\<lambda>c. if 65 \<le> (of_char c :: nat) \<and> (of_char c :: nat) \<le> 90
               then char_of (of_char c + 32 :: nat) else c) s"

definition verbatim_ratio :: "string \<Rightarrow> string \<Rightarrow> int" where
  "verbatim_ratio s1 s2 = (if sublist s1 s2 then 100 else 0)"

definition mario_links :: "link list" where
  "mario_links =
     [\<lparr>href = ''http://h/Mario1.zip'', link_text = ''Super Mario Bros''\<rparr>,
      \<lparr>href = ''http://h/Mario2.zip'', link_text = ''Super Mario Bros 2''\<rparr>]"

definition example_header :: string where
  "example_header = ''attachment; filename='' @ [dquote] @ ''a b.zip'' @ [dquote]"

definition long_url :: string where
  "long_url = ''http://h/abcdefghijklmnopqrstuvwxyz0123456789.zip''"

definition rw0 :: report_world where
  "rw0 = \<lparr>files = Map.empty, printed = []\<rparr>"

definition example_report :: "(string \<times> string list) list" where
  "example_report = [(''mario'', [''http://h/x.zip'', ''https://h/y'']), (''zelda'', [])]"

definition split_keyword :: string where
  "split_keyword = ''a'' @ [LF] @ ''http://b''"

section \<open>Properties of the retry loop\<close>

lemma download_loop_skipped:
  "\<not> attempt < retries \<Longrightarrow> download_loop net url path retries attempt w = (None, w)"
  by (subst download_loop.simps) simp

lemma download_loop_exhausted:
  "n = nat (retries - attempt) \<Longrightarrow> attempt < retries \<Longrightarrow>
   (\<And>i. i < n \<Longrightarrow> net (gets w + i) = Raised (errs i)) \<Longrightarrow>
   download_loop net url path retries attempt w =
     (Some (failure_message url (errs (n - 1))),
      w\<lparr>gets := gets w + n,
        console := console w @ map (\<lambda>j. retry_notice url (attempt + 1 + int j) retries) [0..<n - 1],
        log_text := log_text w @ log_line url retries (errs (n - 1))\<rparr>)"
proof (induction n arbitrary: attempt w errs)
  case 0
  then show ?case by simp
next
  case (Suc n)
  have first: "net (gets w) = Raised (errs 0)"
    using Suc.prems(3) [of 0] by simp
  show ?case
  proof (cases "attempt + 1 = retries")
    case True
    then have "n = 0" using Suc.prems(1) by simp
    with True first Suc.prems(2) show ?thesis
      by (subst download_loop.simps) simp
  next
    case False
    let ?w = "w\<lparr>gets := gets w + 1,
                 console := console w @ [retry_notice url (attempt + 1) retries]\<rparr>"
    have n: "n = nat (retries - (attempt + 1))" using Suc.prems(1) by simp
    have lt: "attempt + 1 < retries" using False Suc.prems(2) by simp
    have npos: "0 < n" using n lt by simp
    have rest: "net (gets ?w + i) = Raised ((errs \<circ> Suc) i)" if "i < n" for i
      using Suc.prems(3) [of "Suc i"] that by simp
    have step: "download_loop net url path retries attempt w =
                download_loop net url path retries (attempt + 1) ?w"
      using False first Suc.prems(2) by (subst download_loop.simps) simp
    have upt: "[0..<n] = 0 # map Suc [0..<n - 1]"
      using npos by (metis One_nat_def Suc_pred map_Suc_upt upt_conv_Cons)
    note ih = Suc.IH [OF n lt rest]
    show ?thesis
      using npos by (simp only: step ih) (simp add: upt comp_def add.assoc)
  qed
qed

lemma download_loop_recovers:
  "attempt + int k < retries \<Longrightarrow>
   (\<And>i. i < k \<Longrightarrow> net (gets w + i) = Raised (errs i)) \<Longrightarrow>
   net (gets w + k) = Completed h \<Longrightarrow>
   download_loop net url path retries attempt w =
     (Some (success_message url (local_filename path url h)),
      w\<lparr>gets := gets w + k + 1,
        console := console w @ map (\<lambda>j. retry_notice url (attempt + 1 + int j) retries) [0..<k]\<rparr>)"
proof (induction k arbitrary: attempt w errs)
  case 0
  then show ?case by (subst download_loop.simps) simp
next
  case (Suc k)
  let ?w = "w\<lparr>gets := gets w + 1,
               console := console w @ [retry_notice url (attempt + 1) retries]\<rparr>"
  have first: "net (gets w) = Raised (errs 0)"
    using Suc.prems(2) [of 0] by simp
  have lt: "attempt + 1 + int k < retries" using Suc.prems(1) by simp
  have rest: "net (gets ?w + i) = Raised ((errs \<circ> Suc) i)" if "i < k" for i
    using Suc.prems(2) [of "Suc i"] that by simp
  have final: "net (gets ?w + k) = Completed h" using Suc.prems(3) by simp
  have step: "download_loop net url path retries attempt w =
              download_loop net url path retries (attempt + 1) ?w"
    using first Suc.prems(1) by (subst download_loop.simps) simp
  have upt: "[0..<Suc k] = 0 # map Suc [0..<k]"
    by (metis map_Suc_upt upt_conv_Cons zero_less_Suc)
  note ih = Suc.IH [OF lt rest final]
  show ?case
    by (simp only: step ih upt) (simp add: comp_def add.assoc)
qed

lemma download_loop_returns:
  "attempt < retries \<Longrightarrow>
   \<exists>msg. fst (download_loop net url path retries attempt w) = Some msg \<and>
     ((\<exists>local. msg = success_message url local) \<or> (\<exists>e. msg = failure_message url e))"
proof (induction net url path retries attempt w rule: download_loop.induct)
  case (1 net url path retries attempt w)
  show ?case
  proof (cases "net (gets w)")
    case (Completed h)
    with "1.prems" show ?thesis
      by (subst download_loop.simps) auto
  next
    case (Raised e)
    show ?thesis
    proof (cases "attempt + 1 = retries")
      case True
      with Raised "1.prems" show ?thesis
        by (subst download_loop.simps) auto
    next
      case False
      then have "attempt + 1 < retries" using "1.prems" by simp
      from "1.IH" [OF "1.prems" Raised False this]
      show ?thesis
        using Raised False "1.prems" by (subst download_loop.simps) simp
    qed
  qed
qed



lemma download_loop_exn_plain:
  "(\<And>i. i < nat (retries - attempt) \<Longrightarrow>
        caught (net (gets w + i)) \<and> fault (gets w + i) = None) \<Longrightarrow>
   download_loop_exn net fault url path retries attempt w =
     (Inr (fst (download_loop (\<lambda>i. plain (net i)) url path retries attempt w)),
      snd (download_loop (\<lambda>i. plain (net i)) url path retries attempt w))"
proof (induction net fault url path retries attempt w rule: download_loop_exn.induct)
  case (1 net fault url path retries attempt w)
  show ?case
  proof (cases "attempt < retries")
    case False
    then show ?thesis
      by (subst download_loop_exn.simps, subst (1 2) download_loop.simps) simp
  next
    case True
    then have pos: "0 < nat (retries - attempt)" by simp
    from "1.prems" [OF pos] have c: "caught (net (gets w))" and f: "fault (gets w) = None"
      by simp_all
    show ?thesis
    proof (cases "net (gets w)")
      case (TryCompleted h)
      with True show ?thesis
        by (subst download_loop_exn.simps, subst (1 2) download_loop.simps) simp
    next
      case (TryRaised x)
      obtain kind e where x: "x = Exn kind e" by (cases x)
      with c TryRaised have k: "kind = OrdinaryException" by simp
      show ?thesis
      proof (cases "attempt + 1 = retries")
        case last: True
        with True TryRaised x k f show ?thesis
          by (subst download_loop_exn.simps, subst (1 2) download_loop.simps) simp
      next
        case more: False
        let ?w = "w\<lparr>gets := gets w + 1,
                     console := console w @ [retry_notice url (attempt + 1) retries]\<rparr>"
        have rest: "caught (net (gets ?w + i)) \<and> fault (gets ?w + i) = None"
          if "i < nat (retries - (attempt + 1))" for i
          using "1.prems" [of "Suc i"] that by simp
        have k': "kind \<noteq> BaseExceptionOnly" using k by simp
        note ih = "1.IH" [OF True TryRaised x k' more f rest]
        have l: "download_loop_exn net fault url path retries attempt w =
                 download_loop_exn net fault url path retries (attempt + 1) ?w"
          using True TryRaised x k f more by (subst download_loop_exn.simps) simp
        have r: "download_loop (\<lambda>i. plain (net i)) url path retries attempt w =
                 download_loop (\<lambda>i. plain (net i)) url path retries (attempt + 1) ?w"
          using True TryRaised x more by (subst download_loop.simps) simp
        show ?thesis unfolding l r using ih by simp
      qed
    qed
  qed
qed


lemma plain_raised:
  "t = TryRaised x \<Longrightarrow>
   plain t = Raised (case plain t of Raised e \<Rightarrow> e | Completed h \<Rightarrow> [])"
  by (cases x) simp

lemma download_loop_exn_retry:
  "attempt < retries \<Longrightarrow> net (gets w) = TryRaised (Exn OrdinaryException e) \<Longrightarrow>
   attempt + 1 \<noteq> retries \<Longrightarrow> fault (gets w) = None \<Longrightarrow>
   download_loop_exn net fault url path retries attempt w =
     download_loop_exn net fault url path retries (attempt + 1)
       (w\<lparr>gets := gets w + 1,
          console := console w @ [retry_notice url (attempt + 1) retries]\<rparr>)"
  by (subst download_loop_exn.simps) simp

lemma download_loop_exn_fault:
  "attempt < retries \<Longrightarrow> net (gets w) = TryRaised (Exn OrdinaryException e) \<Longrightarrow>
   fault (gets w) = Some x \<Longrightarrow>
   fst (download_loop_exn net fault url path retries attempt w) = Inl x"
  by (subst download_loop_exn.simps) simp

lemma download_loop_exn_uncaught:
  "attempt < retries \<Longrightarrow> net (gets w) = TryRaised (Exn BaseExceptionOnly e) \<Longrightarrow>
   fst (download_loop_exn net fault url path retries attempt w) = Inl (Exn BaseExceptionOnly e)"
  by (subst download_loop_exn.simps) simp

text \<open>
  C4, as amended. With \<open>retries = N \<ge> 1\<close>, when every exception that the first \<open>N\<close>
  attempts raise is an instance of \<^verbatim>\<open>Exception\<close> and the handler's own print and
  append to the error log raise nothing, no exception leaves the function: it returns
  the success message of the first attempt that runs to its end, all attempts before it
  having failed, or, when all \<open>N\<close> attempts fail, the failure message with the error of
  the last one.
\<close>

theorem download_link_exn_contained:
  assumes "1 \<le> N"
    and "\<forall>i < nat N. caught (net (gets w + i)) \<and> fault (gets w + i) = None"
  shows "\<exists>msg. fst (download_link_exn net fault url path N w) = Inr (Some msg) \<and>
     ((\<exists>k h. k < nat N \<and> (\<forall>i < k. \<exists>x. net (gets w + i) = TryRaised x)
          \<and> net (gets w + k) = TryCompleted h
          \<and> msg = success_message url (local_filename path url h))
      \<or> ((\<forall>i < nat N. \<exists>x. net (gets w + i) = TryRaised x)
          \<and> (\<exists>kind e. net (gets w + (nat N - 1)) = TryRaised (Exn kind e)
                \<and> msg = failure_message url e)))"
proof -
  let ?net = "\<lambda>i. plain (net i)"
  let ?errs = "\<lambda>i. case plain (net (gets w + i)) of Raised e \<Rightarrow> e | Completed h \<Rightarrow> []"
  have agree: "fst (download_link_exn net fault url path N w) =
               Inr (fst (download_loop ?net url path N 0 w))"
    unfolding download_link_exn_def
    using assms(2) by (subst download_loop_exn_plain) simp_all
  show ?thesis
  proof (cases "\<exists>k < nat N. \<exists>h. net (gets w + k) = TryCompleted h")
    case True
    let ?P = "\<lambda>k. k < nat N \<and> (\<exists>h. net (gets w + k) = TryCompleted h)"
    define k where "k = (LEAST k. ?P k)"
    from True have "\<exists>k. ?P k" by blast
    then have "?P k"
      unfolding k_def by (rule LeastI_ex [of ?P])
    then obtain h where k: "k < nat N" and h: "net (gets w + k) = TryCompleted h" by blast
    have before: "\<exists>x. net (gets w + i) = TryRaised x" if "i < k" for i
    proof (cases "net (gets w + i)")
      case (TryRaised x)
      then show ?thesis by blast
    next
      case (TryCompleted h')
      with that k have "?P i" by auto
      then have "k \<le> i" unfolding k_def by (rule Least_le [of ?P i])
      with that show ?thesis by simp
    qed
    have raised: "?net (gets w + i) = Raised (?errs i)" if "i < k" for i
    proof -
      from before [OF that] obtain x where "net (gets w + i) = TryRaised x" ..
      then show ?thesis by (rule plain_raised)
    qed
    have "0 + int k < N" using k by simp
    from download_loop_recovers [of 0 k N ?net w ?errs h url path, OF this raised]
    have "fst (download_loop ?net url path N 0 w) =
            Some (success_message url (local_filename path url h))"
      using h by simp
    with agree have m: "fst (download_link_exn net fault url path N w) =
            Inr (Some (success_message url (local_filename path url h)))"
      by simp
    have "\<exists>k h'. k < nat N \<and> (\<forall>i < k. \<exists>x. net (gets w + i) = TryRaised x)
          \<and> net (gets w + k) = TryCompleted h'
          \<and> success_message url (local_filename path url h) =
              success_message url (local_filename path url h')"
      using k h before by blast
    with m show ?thesis by blast
  next
    case False
    have all: "\<exists>x. net (gets w + i) = TryRaised x" if "i < nat N" for i
      using False that by (cases "net (gets w + i)") auto
    have raised: "?net (gets w + i) = Raised (?errs i)" if "i < nat N" for i
    proof -
      from all [OF that] obtain x where "net (gets w + i) = TryRaised x" ..
      then show ?thesis by (rule plain_raised)
    qed
    have "nat N = nat (N - 0)" "0 < N" using assms(1) by simp_all
    from download_loop_exhausted [of "nat N" N 0 ?net w ?errs url path, OF this raised]
    have res: "fst (download_loop ?net url path N 0 w) =
            Some (failure_message url (?errs (nat N - 1)))"
      by simp
    have "nat N - 1 < nat N" using assms(1) by simp
    from all [OF this] obtain x where x: "net (gets w + (nat N - 1)) = TryRaised x" by blast
    obtain kind e where "x = Exn kind e" by (cases x)
    with x have last: "net (gets w + (nat N - 1)) = TryRaised (Exn kind e)"
      and e: "?errs (nat N - 1) = e"
      by simp_all
    from agree res e have m: "fst (download_link_exn net fault url path N w) =
            Inr (Some (failure_message url e))"
      by simp
    have "(\<forall>i < nat N. \<exists>x. net (gets w + i) = TryRaised x)
          \<and> (\<exists>kind e'. net (gets w + (nat N - 1)) = TryRaised (Exn kind e')
                \<and> failure_message url e = failure_message url e')"
      using all last by blast
    with m show ?thesis by blast
  qed
qed

theorem download_link_exn_contained_witness:
  "(1::int) \<le> 3
   \<and> fst (download_link_exn lucky_exn no_fault ''http://h/f.zip'' ''.'' 3 w0) =
       Inr (Some ''Downloaded http://h/f.zip to ./f.zip'')
   \<and> fst (download_link_exn refused_exn no_fault ''http://h/f.zip'' ''.'' 3 w0) =
       Inr (Some ''Failed to download http://h/f.zip: refused'')"
proof -
  have l: "\<forall>i < nat 3. caught (lucky_exn (gets w0 + i)) \<and> no_fault (gets w0 + i) = None"
    by (simp add: lucky_exn_def no_fault_def)
  have r: "\<forall>i < nat 3. caught (refused_exn (gets w0 + i)) \<and> no_fault (gets w0 + i) = None"
    by (simp add: refused_exn_def no_fault_def)
  have s: "success_message ''http://h/f.zip'' (local_filename ''.'' ''http://h/f.zip'' None) =
           ''Downloaded http://h/f.zip to ./f.zip''"
    by (simp add: success_message_def local_filename_def path_join_def suffix_to_prefix)
  have one: "(1::int) \<le> 3" by simp
  from download_link_exn_contained [of 3 lucky_exn w0 no_fault "''http://h/f.zip''" "''.''", OF one l]
  obtain msg where m: "fst (download_link_exn lucky_exn no_fault ''http://h/f.zip'' ''.'' 3 w0) =
       Inr (Some msg)"
    and d: "(\<exists>k h. k < nat 3 \<and> (\<forall>i < k. \<exists>x. lucky_exn (gets w0 + i) = TryRaised x)
          \<and> lucky_exn (gets w0 + k) = TryCompleted h
          \<and> msg = success_message ''http://h/f.zip'' (local_filename ''.'' ''http://h/f.zip'' h))
      \<or> ((\<forall>i < nat 3. \<exists>x. lucky_exn (gets w0 + i) = TryRaised x)
          \<and> (\<exists>kind e. lucky_exn (gets w0 + (nat 3 - 1)) = TryRaised (Exn kind e)
                \<and> msg = failure_message ''http://h/f.zip'' e))"
    by blast
  have "lucky_exn (gets w0 + (nat 3 - 1)) = TryCompleted None"
    by (simp add: lucky_exn_def w0_def)
  then have "\<not> (\<exists>kind e. lucky_exn (gets w0 + (nat 3 - 1)) = TryRaised (Exn kind e)
                \<and> msg = failure_message ''http://h/f.zip'' e)"
    by simp
  with d obtain k h where "lucky_exn (gets w0 + k) = TryCompleted h"
    and msg: "msg = success_message ''http://h/f.zip'' (local_filename ''.'' ''http://h/f.zip'' h)"
    by blast
  then have "h = None" by (simp add: lucky_exn_def split: if_splits)
  with m msg s have a: "fst (download_link_exn lucky_exn no_fault ''http://h/f.zip'' ''.'' 3 w0) =
       Inr (Some ''Downloaded http://h/f.zip to ./f.zip'')"
    by simp
  from download_link_exn_contained [of 3 refused_exn w0 no_fault "''http://h/f.zip''" "''.''", OF one r]
  obtain msg' where m': "fst (download_link_exn refused_exn no_fault ''http://h/f.zip'' ''.'' 3 w0) =
       Inr (Some msg')"
    and d': "(\<exists>k h. refused_exn (gets w0 + k) = TryCompleted h)
      \<or> (\<exists>kind e. refused_exn (gets w0 + (nat 3 - 1)) = TryRaised (Exn kind e)
                \<and> msg' = failure_message ''http://h/f.zip'' e)"
    by blast
  have "\<not> (\<exists>k h. refused_exn (gets w0 + k) = TryCompleted h)"
    by (simp add: refused_exn_def)
  with d' obtain kind e where "refused_exn (gets w0 + (nat 3 - 1)) = TryRaised (Exn kind e)"
    and msg': "msg' = failure_message ''http://h/f.zip'' e"
    by blast
  then have "e = ''refused''" by (simp add: refused_exn_def)
  with m' msg' have b: "fst (download_link_exn refused_exn no_fault ''http://h/f.zip'' ''.'' 3 w0) =
       Inr (Some ''Failed to download http://h/f.zip: refused'')"
    by (simp add: failure_message_def)
  from a b show ?thesis by simp
qed

text \<open>
  C4 as stated fails: an exception raised by the handler's append to the error log
  leaves the function, and so does an exception outside \<^verbatim>\<open>Exception\<close> raised by an
  attempt.
\<close>

theorem download_link_raises_counterexample:
  "fst (download_link_exn refused_exn unwritable_log ''http://h/f.zip'' ''.'' 3 w0) =
     Inl (Exn OrdinaryException ''Permission denied'')
   \<and> fst (download_link_exn interrupted no_fault ''http://h/f.zip'' ''.'' 3 w0) =
     Inl (Exn BaseExceptionOnly ''KeyboardInterrupt'')"
proof -
  have "fst (download_link_exn refused_exn unwritable_log ''http://h/f.zip'' ''.'' 3 w0) =
     Inl (Exn OrdinaryException ''Permission denied'')"
    unfolding download_link_exn_def
    apply (subst download_loop_exn_retry [where e = "''refused''"])
        apply (simp_all add: refused_exn_def unwritable_log_def w0_def)
    apply (subst download_loop_exn_retry [where e = "''refused''"])
        apply (simp_all add: refused_exn_def unwritable_log_def w0_def)
    apply (rule download_loop_exn_fault [where e = "''refused''"])
      apply (simp_all add: refused_exn_def unwritable_log_def w0_def)
    done
  moreover have "fst (download_link_exn interrupted no_fault ''http://h/f.zip'' ''.'' 3 w0) =
     Inl (Exn BaseExceptionOnly ''KeyboardInterrupt'')"
    unfolding download_link_exn_def
    by (rule download_loop_exn_uncaught) (simp_all add: interrupted_def)
  ultimately show ?thesis by simp
qed



text \<open>
  C9. With \<open>retries \<le> 0\<close> the loop body never runs: the call returns \<open>None\<close> and leaves
  the world as it was (no request, no retry notice, no error log entry). The call
  returns \<open>None\<close> only then, so a message for every task needs \<open>retries \<ge> 1\<close>.
\<close>

theorem download_link_no_retries:
  "(N \<le> 0 \<longrightarrow> download_link net url path N w = (None, w))
   \<and> (fst (download_link net url path N w) = None \<longleftrightarrow> N \<le> 0)"
proof -
  have skip: "download_link net url path N w = (None, w)" if "N \<le> 0"
    unfolding download_link_def using that by (intro download_loop_skipped) simp
  have "fst (download_link net url path N w) \<noteq> None" if "\<not> N \<le> 0"
  proof -
    from that have "0 < N" by simp
    from download_loop_returns [OF this, of net url path w]
    show ?thesis unfolding download_link_def by auto
  qed
  with skip show ?thesis by (cases "N \<le> 0") auto
qed

theorem download_link_no_retries_witness:
  "(0::int) \<le> 0
   \<and> download_link always_refused ''http://h/f.zip'' ''.'' 0 w0 = (None, w0)
   \<and> download_link third_time_lucky ''http://h/f.zip'' ''.'' (- 1) w0 = (None, w0)
   \<and> fst (download_link third_time_lucky ''http://h/f.zip'' ''.'' 1 w0) \<noteq> None"
  using download_link_no_retries [of 0 always_refused "''http://h/f.zip''" "''.''" w0]
    download_link_no_retries [of "- 1" third_time_lucky "''http://h/f.zip''" "''.''" w0]
    download_link_no_retries [of 1 third_time_lucky "''http://h/f.zip''" "''.''" w0]
  by simp

section \<open>Properties of the matcher\<close>

lemma score_links_eq:
  "score_links pr lower kw links acc =
     acc @ map (\<lambda>l. (link_score pr lower kw l, href l)) (filter (\<lambda>l. 0 < link_score pr lower kw l) links)"
  by (induction links arbitrary: acc) (simp_all add: Let_def)

lemma insort_key_map:
  "insort_key f (g x) (map g xs) = map g (insort_key (\<lambda>a. f (g a)) x xs)"
  by (induction xs) simp_all

lemma sort_key_map: "sort_key f (map g xs) = map g (sort_key (\<lambda>a. f (g a)) xs)"
  by (induction xs) (simp_all add: insort_key_map)

lemma sort_reverse_key_map:
  "sort_reverse_key f (map g xs) = map g (sort_reverse_key (\<lambda>a. f (g a)) xs)"
  by (simp add: sort_reverse_key_def rev_map sort_key_map)

lemma slice_to_map: "slice_to topn (map g xs) = map g (slice_to topn xs)"
  by (simp add: slice_to_def take_map split: option.splits)

lemma slice_to_take: "\<exists>n. slice_to topn xs = take n xs"
proof (cases topn)
  case None
  have "slice_to None xs = take (length xs) xs" by (simp add: slice_to_def)
  with None show ?thesis by blast
next
  case (Some k)
  then show ?thesis by (auto simp: slice_to_def)
qed

lemma fuzzy_match_eq:
  "fuzzy_match pr lower links kw topn =
     map href (slice_to topn (sort_reverse_key (link_score pr lower kw)
       (filter (\<lambda>l. 0 < link_score pr lower kw l) links)))"
  by (simp add: fuzzy_match_def score_links_eq sort_reverse_key_map slice_to_map comp_def)

lemma sort_reverse_key_stable_desc: "stable_desc_sort_of f (sort_reverse_key f xs) xs"
proof -
  have "sorted (map f (sort_key f (rev xs)))" by simp
  then have "sorted_wrt (\<lambda>a b. f a \<le> f b) (sort_key f (rev xs))"
    by (simp add: sorted_wrt_map)
  then have "sorted_wrt (\<lambda>a b. f b \<le> f a) (rev (sort_key f (rev xs)))"
    by (simp add: sorted_wrt_rev)
  moreover have "filter (\<lambda>x. f x = k) (rev (sort_key f (rev xs))) = filter (\<lambda>x. f x = k) xs" for k
    by (simp add: rev_filter [symmetric] sort_key_stable)
  ultimately show ?thesis
    by (simp add: stable_desc_sort_of_def sort_reverse_key_def)
qed

lemma filter_snoc_split:
  "filter P xs = F @ [y] \<Longrightarrow>
   \<exists>as bs. xs = as @ y # bs \<and> filter P as = F \<and> filter P bs = []"
proof (induction xs arbitrary: F rule: rev_induct)
  case Nil
  then show ?case by simp
next
  case (snoc x xs)
  show ?case
  proof (cases "P x")
    case True
    with snoc.prems have "filter P xs = F" "x = y" by simp_all
    then have "xs @ [x] = xs @ y # [] \<and> filter P xs = F \<and> filter P [] = []" by simp
    then show ?thesis by blast
  next
    case False
    with snoc.prems have "filter P xs = F @ [y]" by simp
    from snoc.IH [OF this] obtain as bs
      where "xs = as @ y # bs" "filter P as = F" "filter P bs = []" by blast
    with False have "xs @ [x] = as @ y # (bs @ [x]) \<and> filter P as = F \<and> filter P (bs @ [x]) = []"
      by simp
    then show ?thesis by blast
  qed
qed

lemma stable_desc_sort_butlast:
  assumes "stable_desc_sort_of f (ys @ [y]) xs"
  shows "\<exists>xs'. subseq xs' xs \<and> stable_desc_sort_of f ys xs'"
proof -
  from assms have sorted: "sorted_wrt (\<lambda>a b. f b \<le> f a) ys"
    and groups: "\<And>k. filter (\<lambda>x. f x = k) (ys @ [y]) = filter (\<lambda>x. f x = k) xs"
    by (simp_all add: stable_desc_sort_of_def sorted_wrt_append)
  have "filter (\<lambda>x. f x = f y) xs = filter (\<lambda>x. f x = f y) ys @ [y]"
    using groups [of "f y"] by simp
  from filter_snoc_split [OF this] obtain as bs where xs: "xs = as @ y # bs"
    and as: "filter (\<lambda>x. f x = f y) as = filter (\<lambda>x. f x = f y) ys"
    and bs: "filter (\<lambda>x. f x = f y) bs = []"
    by blast
  have sub: "subseq (as @ bs) xs"
    unfolding xs by (intro list_emb_append_mono subseq_order.refl list_emb_Cons)
  have "filter (\<lambda>x. f x = k) ys = filter (\<lambda>x. f x = k) (as @ bs)" for k
  proof (cases "k = f y")
    case True
    with as bs show ?thesis by simp
  next
    case False
    with groups [of k] show ?thesis by (simp add: xs)
  qed
  with sorted have "stable_desc_sort_of f ys (as @ bs)"
    by (simp add: stable_desc_sort_of_def)
  with sub show ?thesis by blast
qed

lemma stable_desc_sort_prefix:
  "stable_desc_sort_of f (ys @ zs) xs \<Longrightarrow> \<exists>xs'. subseq xs' xs \<and> stable_desc_sort_of f ys xs'"
proof (induction zs arbitrary: xs rule: rev_induct)
  case Nil
  then show ?case by auto
next
  case (snoc z zs)
  from snoc.prems have "stable_desc_sort_of f ((ys @ zs) @ [z]) xs" by simp
  from stable_desc_sort_butlast [OF this] obtain xs1
    where xs1: "subseq xs1 xs" "stable_desc_sort_of f (ys @ zs) xs1" by blast
  from snoc.IH [OF xs1(2)] obtain xs2
    where "subseq xs2 xs1" "stable_desc_sort_of f ys xs2" by blast
  with xs1(1) show ?case by (meson subseq_order.trans)
qed

lemma subseq_mset_subseteq: "subseq xs ys \<Longrightarrow> mset xs \<subseteq># mset ys"
proof (induction rule: list_emb.induct)
  case (list_emb_Nil ys)
  then show ?case by simp
next
  case (list_emb_Cons xs ys y)
  then show ?case by (auto simp: subseteq_mset_def le_SucI)
next
  case (list_emb_Cons2 x y xs ys)
  then show ?case by simp
qed

lemma stable_desc_sort_mset: "stable_desc_sort_of f ys xs \<Longrightarrow> mset ys = mset xs"
proof -
  assume a: "stable_desc_sort_of f ys xs"
  have "count (mset ys) x = count (mset xs) x" for x
  proof -
    from a have "filter (\<lambda>z. f z = f x) ys = filter (\<lambda>z. f z = f x) xs"
      by (simp add: stable_desc_sort_of_def)
    then have "filter ((=) x) (filter (\<lambda>z. f z = f x) ys) =
               filter ((=) x) (filter (\<lambda>z. f z = f x) xs)" by simp
    moreover have "filter ((=) x) (filter (\<lambda>z. f z = f x) us) = filter ((=) x) us" for us
    proof -
      have "filter ((=) x) (filter (\<lambda>z. f z = f x) us) = filter (\<lambda>z. f z = f x \<and> x = z) us"
        by (simp only: filter_filter)
      also have "\<dots> = filter ((=) x) us"
        by (rule filter_cong [OF refl]) blast
      finally show ?thesis .
    qed
    ultimately have "filter ((=) x) ys = filter ((=) x) xs" by simp
    then have "length (filter ((=) x) ys) = length (filter ((=) x) xs)" by simp
    then show ?thesis by (simp add: count_mset count_list_eq_length_filter)
  qed
  then show ?thesis by (simp add: multiset_eq_iff)
qed

text \<open>
  C2. The result of \<open>fuzzy_match\<close> is the list of hrefs of a selection of the input
  links, a subsequence of the links that score above 0, put in descending order of
  score by a stable sort: links of equal score keep their input order. Without \<open>topn\<close>
  the selection is every link that scores above 0, so duplicates are echoed and nothing
  else is dropped. Every href of the result, counted with its multiplicity, is an href of
  the input.
\<close>

theorem fuzzy_match_ranking:
  "(\<exists>ys. stable_desc_sort_of (link_score pr lower kw) ys
            (filter (\<lambda>l. 0 < link_score pr lower kw l) links)
         \<and> fuzzy_match pr lower links kw None = map href ys)
   \<and> (\<exists>sel ys. subseq sel (filter (\<lambda>l. 0 < link_score pr lower kw l) links)
         \<and> stable_desc_sort_of (link_score pr lower kw) ys sel
         \<and> fuzzy_match pr lower links kw topn = map href ys)
   \<and> mset (fuzzy_match pr lower links kw None) =
       mset (map href (filter (\<lambda>l. 0 < link_score pr lower kw l) links))
   \<and> mset (fuzzy_match pr lower links kw topn) \<subseteq># mset (map href links)"
proof -
  let ?f = "link_score pr lower kw"
  let ?pos = "filter (\<lambda>l. 0 < ?f l) links"
  let ?sorted = "sort_reverse_key ?f ?pos"
  have st: "stable_desc_sort_of ?f ?sorted ?pos" by (rule sort_reverse_key_stable_desc)
  have none: "fuzzy_match pr lower links kw None = map href ?sorted"
    by (simp add: fuzzy_match_eq slice_to_def)
  obtain n where n: "slice_to topn ?sorted = take n ?sorted"
    using slice_to_take by blast
  have "stable_desc_sort_of ?f (take n ?sorted @ drop n ?sorted) ?pos" using st by simp
  from stable_desc_sort_prefix [OF this] obtain sel
    where sel: "subseq sel ?pos" "stable_desc_sort_of ?f (take n ?sorted) sel" by blast
  have any: "fuzzy_match pr lower links kw topn = map href (take n ?sorted)"
    by (simp add: fuzzy_match_eq n)
  have c1: "\<exists>ys. stable_desc_sort_of ?f ys ?pos \<and> fuzzy_match pr lower links kw None = map href ys"
    using st none by blast
  have c2: "\<exists>sel ys. subseq sel ?pos \<and> stable_desc_sort_of ?f ys sel
              \<and> fuzzy_match pr lower links kw topn = map href ys"
    using sel any by blast
  have c3: "mset (fuzzy_match pr lower links kw None) = mset (map href ?pos)"
    using stable_desc_sort_mset [OF st] by (simp only: none mset_map)
  have "mset (take n ?sorted) = mset sel" using stable_desc_sort_mset [OF sel(2)] .
  moreover have "subseq sel links"
    using sel(1) subseq_filter_left [of "\<lambda>l. 0 < ?f l" links] by (rule subseq_order.trans)
  then have "mset sel \<subseteq># mset links" by (rule subseq_mset_subseteq)
  ultimately have "mset (take n ?sorted) \<subseteq># mset links" by simp
  then have c4: "mset (fuzzy_match pr lower links kw topn) \<subseteq># mset (map href links)"
    unfolding any mset_map by (rule image_mset_subseteq_mono)
  from c1 c2 c3 c4 show ?thesis by blast
qed

theorem fuzzy_match_ranking_witness:
  "fuzzy_match verbatim_ratio ascii_lower mario_links ''Mario'' None =
     [''http://h/Mario1.zip'', ''http://h/Mario2.zip'']
   \<and> mset (fuzzy_match verbatim_ratio ascii_lower mario_links ''Mario'' None) =
       mset (map href (filter (\<lambda>l. 0 < link_score verbatim_ratio ascii_lower ''Mario'' l)
         mario_links))
   \<and> mset (fuzzy_match verbatim_ratio ascii_lower mario_links ''Mario'' (Some 1))
       \<subseteq># mset (map href mario_links)"
  using fuzzy_match_ranking [of verbatim_ratio ascii_lower "''Mario''" mario_links "Some 1"]
  by (simp add: fuzzy_match_def mario_links_def link_score_def verbatim_ratio_def
      ascii_lower_def sort_reverse_key_def slice_to_def sublist_code prefix_code)

text \<open>
  C6, as amended. For every \<open>k \<ge> 0\<close>, \<open>fuzzy_match\<close> with \<open>topn = k\<close> returns exactly
  \<open>min k matchCount\<close> entries, where \<open>matchCount\<close> is the number of links scoring
  above 0. For every \<open>topn\<close>, the result is a prefix of the result without \<open>topn\<close>, and
  without \<open>topn\<close> all \<open>matchCount\<close> matches are returned.
\<close>

theorem fuzzy_match_topn:
  "(0 \<le> k \<longrightarrow> length (fuzzy_match pr lower links kw (Some k)) =
       min (nat k) (length (filter (\<lambda>l. 0 < link_score pr lower kw l) links)))
   \<and> prefix (fuzzy_match pr lower links kw topn) (fuzzy_match pr lower links kw None)
   \<and> length (fuzzy_match pr lower links kw None) =
       length (filter (\<lambda>l. 0 < link_score pr lower kw l) links)"
proof -
  let ?sorted = "sort_reverse_key (link_score pr lower kw) (filter (\<lambda>l. 0 < link_score pr lower kw l) links)"
  have len: "length ?sorted = length (filter (\<lambda>l. 0 < link_score pr lower kw l) links)"
    by (simp add: sort_reverse_key_def)
  obtain n where n: "slice_to topn ?sorted = take n ?sorted"
    using slice_to_take by blast
  have "prefix (take n ?sorted) ?sorted" by (rule take_is_prefix)
  then have "prefix (map href (take n ?sorted)) (map href ?sorted)" by (rule map_mono_prefix)
  then have p: "prefix (fuzzy_match pr lower links kw topn) (fuzzy_match pr lower links kw None)"
    by (simp add: fuzzy_match_eq n) (simp add: slice_to_def)
  show ?thesis
    using p len by (simp add: fuzzy_match_eq) (simp add: slice_to_def min.commute)
qed

theorem fuzzy_match_topn_witness:
  "(0::int) \<le> 1
   \<and> length (fuzzy_match verbatim_ratio ascii_lower mario_links ''Mario'' (Some 1)) = 1
   \<and> prefix (fuzzy_match verbatim_ratio ascii_lower mario_links ''Mario'' (Some 1))
        (fuzzy_match verbatim_ratio ascii_lower mario_links ''Mario'' None)
   \<and> length (fuzzy_match verbatim_ratio ascii_lower mario_links ''Mario'' None) = 2"
  using fuzzy_match_topn [of 1 verbatim_ratio ascii_lower mario_links "''Mario''" "Some 1"]
  by (simp add: mario_links_def link_score_def verbatim_ratio_def ascii_lower_def
      sublist_code prefix_code)

text \<open>
  C6 as stated fails for a negative \<open>topn\<close>: with two matches and \<open>topn = -1\<close> the slice
  drops the last match and returns one entry, which is more than \<open>min (-1) 2\<close>.
\<close>

theorem fuzzy_match_negative_topn_counterexample:
  "length (fuzzy_match verbatim_ratio ascii_lower mario_links ''Mario'' (Some (- 1))) = 1
   \<and> length (fuzzy_match verbatim_ratio ascii_lower mario_links ''Mario'' None) = 2
   \<and> \<not> int (length (fuzzy_match verbatim_ratio ascii_lower mario_links ''Mario'' (Some (- 1))))
        \<le> min (- 1) (int (length (fuzzy_match verbatim_ratio ascii_lower mario_links ''Mario'' None)))"
  by (simp add: fuzzy_match_def mario_links_def link_score_def verbatim_ratio_def
      ascii_lower_def sort_reverse_key_def slice_to_def sublist_code prefix_code)


section \<open>Properties of the file name and the display name\<close>

lemma dquote_not_LF: "dquote \<noteq> LF"
  by (simp add: dquote_def LF_def)

lemma capture_group_Some:
  assumes "capture_group rest = Some g"
  shows "\<exists>post. rest = g @ dquote # post \<and> g \<noteq> [] \<and> LF \<notin> set g"
proof -
  define seg where "seg = takeWhile (\<lambda>c. c \<noteq> LF) rest"
  define js where "js = filter (\<lambda>j. 1 \<le> j \<and> seg ! j = dquote) [0..<length seg]"
  from assms have ne: "js \<noteq> []" and g: "g = take (last js) seg"
    by (auto simp: capture_group_def Let_def seg_def js_def split: if_splits)
  from ne have "last js \<in> set js" by simp
  then have j: "1 \<le> last js" "last js < length seg" "seg ! last js = dquote"
    by (auto simp: js_def)
  have "seg = take (last js) seg @ seg ! last js # drop (Suc (last js)) seg"
    using j(2) by (rule id_take_nth_drop)
  then have seg: "seg = g @ dquote # drop (Suc (last js)) seg"
    using g j(3) by simp
  have "rest = seg @ dropWhile (\<lambda>c. c \<noteq> LF) rest"
    by (simp add: seg_def)
  then have "rest = g @ dquote # (drop (Suc (last js)) seg @ dropWhile (\<lambda>c. c \<noteq> LF) rest)"
    using seg by (metis append_Cons append_assoc)
  moreover have "g \<noteq> []" using g j(1,2) by auto
  moreover have "LF \<notin> set g"
  proof
    assume "LF \<in> set g"
    then have "LF \<in> set seg" unfolding g by (rule in_set_takeD)
    then show False unfolding seg_def by (auto dest: set_takeWhileD)
  qed
  ultimately show ?thesis by blast
qed

lemma capture_group_None:
  assumes "capture_group rest = None"
  shows "\<not> (\<exists>g post. rest = g @ dquote # post \<and> g \<noteq> [] \<and> LF \<notin> set g)"
proof
  assume "\<exists>g post. rest = g @ dquote # post \<and> g \<noteq> [] \<and> LF \<notin> set g"
  then obtain g post where rest: "rest = g @ dquote # post" and g: "g \<noteq> []" "LF \<notin> set g"
    by blast
  define seg where "seg = takeWhile (\<lambda>c. c \<noteq> LF) rest"
  have "seg = g @ takeWhile (\<lambda>c. c \<noteq> LF) (dquote # post)"
    unfolding seg_def rest using g(2) by (intro takeWhile_append2) auto
  then have seg: "seg = g @ dquote # takeWhile (\<lambda>c. c \<noteq> LF) post"
    by (simp add: dquote_not_LF)
  have "length g < length seg" "seg ! length g = dquote" "1 \<le> length g"
    using g(1) by (simp_all add: seg Suc_leI)
  then have "length g \<in> set (filter (\<lambda>j. 1 \<le> j \<and> seg ! j = dquote) [0..<length seg])"
    by simp
  then have "filter (\<lambda>j. 1 \<le> j \<and> seg ! j = dquote) [0..<length seg] \<noteq> []"
    by (metis empty_iff empty_set)
  with assms show False
    by (simp add: capture_group_def Let_def seg_def)
qed

lemma matches_filename_Nil: "\<not> matches_filename [] g"
  by (simp add: matches_filename_def filename_eq_def)

lemma matches_filename_Cons:
  "matches_filename (c # cs) g \<longleftrightarrow>
     (\<exists>post. c # cs = filename_eq @ g @ dquote # post \<and> g \<noteq> [] \<and> LF \<notin> set g)
     \<or> matches_filename cs g"
proof
  assume "matches_filename (c # cs) g"
  then obtain pre post where h: "c # cs = pre @ filename_eq @ g @ dquote # post"
    and g: "g \<noteq> []" "LF \<notin> set g"
    unfolding matches_filename_def by blast
  show "(\<exists>post. c # cs = filename_eq @ g @ dquote # post \<and> g \<noteq> [] \<and> LF \<notin> set g)
     \<or> matches_filename cs g"
  proof (cases pre)
    case Nil
    with h g show ?thesis by auto
  next
    case (Cons p ps)
    with h have "cs = ps @ filename_eq @ g @ dquote # post" by simp
    with g have "matches_filename cs g" unfolding matches_filename_def by blast
    then show ?thesis ..
  qed
next
  assume "(\<exists>post. c # cs = filename_eq @ g @ dquote # post \<and> g \<noteq> [] \<and> LF \<notin> set g)
     \<or> matches_filename cs g"
  then show "matches_filename (c # cs) g"
  proof
    assume "\<exists>post. c # cs = filename_eq @ g @ dquote # post \<and> g \<noteq> [] \<and> LF \<notin> set g"
    then obtain post where "c # cs = [] @ filename_eq @ g @ dquote # post" "g \<noteq> []" "LF \<notin> set g"
      by auto
    then show ?thesis unfolding matches_filename_def by blast
  next
    assume "matches_filename cs g"
    then obtain pre post where "cs = pre @ filename_eq @ g @ dquote # post" "g \<noteq> []" "LF \<notin> set g"
      unfolding matches_filename_def by blast
    then have "c # cs = (c # pre) @ filename_eq @ g @ dquote # post" by simp
    with \<open>g \<noteq> []\<close> \<open>LF \<notin> set g\<close> show ?thesis unfolding matches_filename_def by blast
  qed
qed

lemma findall_sound_complete:
  "(re_findall_filename h = [] \<longrightarrow> (\<forall>g. \<not> matches_filename h g))
   \<and> (\<forall>g gs. re_findall_filename h = g # gs \<longrightarrow> matches_filename h g)"
proof (induction h rule: re_findall_filename.induct)
  case 1
  then show ?case by (simp add: matches_filename_Nil)
next
  case (2 c cs)
  show ?case
  proof (cases "prefix filename_eq (c # cs)")
    case False
    then have no: "\<not> (\<exists>post. c # cs = filename_eq @ g @ dquote # post \<and> g \<noteq> [] \<and> LF \<notin> set g)" for g
      by (metis prefixI)
    from False have eq: "re_findall_filename (c # cs) = re_findall_filename cs" by simp
    show ?thesis
      unfolding eq using "2.IH"(3) [OF False] no by (simp add: matches_filename_Cons)
  next
    case True
    then have split: "c # cs = filename_eq @ drop (length filename_eq) (c # cs)"
      by (metis append_eq_conv_conj prefixE)
    show ?thesis
    proof (cases "capture_group (drop (length filename_eq) (c # cs))")
      case None
      have no: "\<not> (\<exists>post. c # cs = filename_eq @ g @ dquote # post \<and> g \<noteq> [] \<and> LF \<notin> set g)" for g
      proof
        assume "\<exists>post. c # cs = filename_eq @ g @ dquote # post \<and> g \<noteq> [] \<and> LF \<notin> set g"
        then obtain post where p: "c # cs = filename_eq @ g @ dquote # post" "g \<noteq> []" "LF \<notin> set g"
          by blast
        from p(1) have "drop (length filename_eq) (c # cs) = g @ dquote # post"
          by (metis append_eq_conv_conj)
        with capture_group_None [OF None] p(2,3) show False by blast
      qed
      from True None have eq: "re_findall_filename (c # cs) = re_findall_filename cs" by simp
      show ?thesis
        unfolding eq using "2.IH"(1) [OF True None] no by (simp add: matches_filename_Cons)
    next
      case (Some g)
      from capture_group_Some [OF Some] obtain post
        where "drop (length filename_eq) (c # cs) = g @ dquote # post" "g \<noteq> []" "LF \<notin> set g"
        by blast
      with split have "c # cs = [] @ filename_eq @ g @ dquote # post" by simp
      with \<open>g \<noteq> []\<close> \<open>LF \<notin> set g\<close> have "matches_filename (c # cs) g"
        unfolding matches_filename_def by blast
      moreover from True Some have "\<exists>gs. re_findall_filename (c # cs) = g # gs" by simp
      ultimately show ?thesis by auto
    qed
  qed
qed

lemma split_on_nonempty: "split_on sep s \<noteq> []"
  by (induction s) (auto split: list.splits)

lemma split_on_single: "split_on sep s = [w] \<Longrightarrow> w = s \<and> sep \<notin> set s"
proof (induction s arbitrary: w)
  case Nil
  then show ?case by simp
next
  case (Cons c cs)
  show ?case
  proof (cases "c = sep")
    case True
    with Cons.prems split_on_nonempty [of sep cs] show ?thesis by simp
  next
    case False
    obtain v vs where v: "split_on sep cs = v # vs"
      using split_on_nonempty [of sep cs] by (cases "split_on sep cs") auto
    with False Cons.prems have "vs = []" "w = c # v" by simp_all
    with v Cons.IH [of v] False show ?thesis by simp
  qed
qed

lemma last_split_on_decomp:
  "\<exists>pre. s = pre @ last (split_on sep s) \<and> (pre = [] \<or> last pre = sep)
         \<and> sep \<notin> set (last (split_on sep s))"
proof (induction s)
  case Nil
  then show ?case by simp
next
  case (Cons c cs)
  from Cons.IH obtain pre where pre: "cs = pre @ last (split_on sep cs)"
    "pre = [] \<or> last pre = sep" "sep \<notin> set (last (split_on sep cs))" by blast
  obtain v vs where v: "split_on sep cs = v # vs"
    using split_on_nonempty [of sep cs] by (cases "split_on sep cs") auto
  show ?case
  proof (cases "c = sep")
    case True
    then have l: "last (split_on sep (c # cs)) = last (split_on sep cs)"
      by (simp add: split_on_nonempty)
    have "c # cs = (c # pre) @ last (split_on sep cs)" using pre(1) by simp
    moreover have "last (c # pre) = sep" using pre(2) True by auto
    ultimately show ?thesis unfolding l using pre(3) by blast
  next
    case False
    show ?thesis
    proof (cases vs)
      case Nil
      with v have "v = cs" "sep \<notin> set cs" using split_on_single [of sep cs v] by simp_all
      with v Nil False have "last (split_on sep (c # cs)) = c # cs" "sep \<notin> set (c # cs)"
        by simp_all
      then show ?thesis by simp
    next
      case (Cons u us)
      with v False have l: "last (split_on sep (c # cs)) = last (split_on sep cs)" by simp
      have "pre \<noteq> []"
      proof
        assume "pre = []"
        with pre(1) have "cs = last (split_on sep cs)" by simp
        with pre(3) have "sep \<notin> set cs" by simp
        then have "split_on sep cs = [cs]"
          by (induction cs) (auto split: list.splits)
        with v Cons show False by simp
      qed
      with pre(2) have "last (c # pre) = sep" by simp
      moreover have "c # cs = (c # pre) @ last (split_on sep cs)" using pre(1) by simp
      ultimately show ?thesis unfolding l using pre(3) by blast
    qed
  qed
qed

lemma basename_unique:
  assumes "p = pre @ seg" "pre = [] \<or> last pre = CHR ''/''" "CHR ''/'' \<notin> set seg"
  shows "basename p = seg"
proof -
  have "takeWhile (\<lambda>c. c \<noteq> CHR ''/'') (rev seg @ rev pre) =
        rev seg @ takeWhile (\<lambda>c. c \<noteq> CHR ''/'') (rev pre)"
    using assms(3) by (intro takeWhile_append2) auto
  moreover have "takeWhile (\<lambda>c. c \<noteq> CHR ''/'') (rev pre) = []"
  proof (cases pre rule: rev_cases)
    case Nil
    then show ?thesis by simp
  next
    case (snoc ys y)
    with assms(2) show ?thesis by simp
  qed
  ultimately show ?thesis by (simp add: basename_def assms(1))
qed

lemma last_split_on_basename: "last (split_on CHR ''/'' url) = basename url"
proof -
  from last_split_on_decomp [of url "CHR ''/''"] obtain pre
    where "url = pre @ last (split_on CHR ''/'' url)" "pre = [] \<or> last pre = CHR ''/''"
      "CHR ''/'' \<notin> set (last (split_on CHR ''/'' url))" by blast
  from basename_unique [OF this] show ?thesis by simp
qed

lemma basename_path_join: "basename (path_join path name) = basename name"
proof -
  from last_split_on_decomp [of name "CHR ''/''"] obtain pre
    where d: "name = pre @ basename name" "pre = [] \<or> last pre = CHR ''/''"
      "CHR ''/'' \<notin> set (basename name)"
    unfolding last_split_on_basename by blast
  consider (abs) "prefix ''/'' name"
    | (cat) "\<not> prefix ''/'' name" "path = [] \<or> suffix ''/'' path"
    | (sep) "\<not> prefix ''/'' name" "\<not> (path = [] \<or> suffix ''/'' path)" by blast
  then show ?thesis
  proof cases
    case abs
    then show ?thesis by (simp add: path_join_def)
  next
    case cat
    then have pj: "path_join path name = (path @ pre) @ basename name"
      using d(1) by (simp add: path_join_def)
    have "path @ pre = [] \<or> last (path @ pre) = CHR ''/''"
    proof (cases "pre = []")
      case True
      with cat(2) show ?thesis by (auto simp: suffix_def)
    next
      case False
      with d(2) show ?thesis by simp
    qed
    from basename_unique [OF pj this d(3)] show ?thesis .
  next
    case sep
    then have pj: "path_join path name = (path @ ''/'' @ pre) @ basename name"
      using d(1) by (simp add: path_join_def)
    have "path @ ''/'' @ pre = [] \<or> last (path @ ''/'' @ pre) = CHR ''/''"
      using d(2) by auto
    from basename_unique [OF pj this d(3)] show ?thesis .
  qed
qed

lemma display_name_length: "length (display_name r) \<le> 30"
  by (simp add: display_name_def)

lemma example_header_matches: "matches_filename example_header ''a b.zip''"
proof -
  have "example_header = ''attachment; '' @ filename_eq @ ''a b.zip'' @ dquote # []"
    by (simp add: example_header_def filename_eq_def)
  moreover have "LF \<notin> set ''a b.zip''" by (simp add: LF_def)
  ultimately show ?thesis unfolding matches_filename_def by blast
qed


text \<open>
  C8. When the \<^verbatim>\<open>Content-Disposition\<close> header is present and holds a match of
  \<^verbatim>\<open>filename="..."\<close>, the local file name is the destination path joined with the group
  of such a match; when the header is absent or holds no match, it is the path joined
  with the final segment of the URL, the part behind its last slash. The name shown by
  the progress bar is the percent-decoded base name of the local file name (joining the
  path does not change the base name), unchanged when it has at most 30 characters, and
  otherwise its first 27 characters followed by three dots; it never has more than 30
  characters.
\<close>

theorem filename_and_display_name:
  "(\<forall>h g0. cd = Some h \<and> matches_filename h g0 \<longrightarrow>
      (\<exists>g. matches_filename h g \<and> local_filename path url cd = path_join path g))
   \<and> (cd = None \<or> (\<exists>h. cd = Some h \<and> (\<forall>g. \<not> matches_filename h g)) \<longrightarrow>
        local_filename path url cd = path_join path (last (split_on CHR ''/'' url)))
   \<and> (\<exists>pre. url = pre @ last (split_on CHR ''/'' url) \<and> (pre = [] \<or> last pre = CHR ''/'')
         \<and> CHR ''/'' \<notin> set (last (split_on CHR ''/'' url)))
   \<and> readable_name unquote (local_filename path url cd) =
       unquote (basename (local_filename path url cd))
   \<and> (\<forall>name. basename (path_join path name) = basename name)
   \<and> display_name (readable_name unquote (local_filename path url cd)) =
       (if length (readable_name unquote (local_filename path url cd)) \<le> 30
        then readable_name unquote (local_filename path url cd)
        else take 27 (readable_name unquote (local_filename path url cd)) @ ''...'')
   \<and> length (display_name (readable_name unquote (local_filename path url cd))) \<le> 30"
proof -
  have a: "\<exists>g. matches_filename h g \<and> local_filename path url cd = path_join path g"
    if "cd = Some h" "matches_filename h g0" for h g0
  proof (cases "re_findall_filename h")
    case Nil
    with findall_sound_complete [of h] that(2) show ?thesis by blast
  next
    case (Cons g gs)
    with findall_sound_complete [of h] have m: "matches_filename h g" by blast
    then have "h \<noteq> []" using matches_filename_Nil by auto
    with Cons that(1) have "local_filename path url cd = path_join path g"
      by (simp add: local_filename_def)
    with m show ?thesis by blast
  qed
  have b: "local_filename path url cd = path_join path (last (split_on CHR ''/'' url))"
    if "cd = None \<or> (\<exists>h. cd = Some h \<and> (\<forall>g. \<not> matches_filename h g))"
  proof -
    from that consider "cd = None" | h where "cd = Some h" "\<forall>g. \<not> matches_filename h g" by blast
    then show ?thesis
    proof cases
      case 1
      then show ?thesis by (simp add: local_filename_def)
    next
      case 2
      then have "re_findall_filename h = []"
        using findall_sound_complete [of h] by (cases "re_findall_filename h") auto
      with 2(1) show ?thesis by (simp add: local_filename_def)
    qed
  qed
  note c = last_split_on_decomp [of url "CHR ''/''"]
  show ?thesis
    using a b c display_name_length [of "readable_name unquote (local_filename path url cd)"]
    by (simp add: readable_name_def display_name_def basename_path_join) blast
qed

theorem filename_and_display_name_witness:
  "matches_filename example_header ''a b.zip''
   \<and> (\<exists>g. matches_filename example_header g
          \<and> local_filename ''dl'' ''http://h/p/f.bin'' (Some example_header) = path_join ''dl'' g)
   \<and> local_filename ''dl'' ''http://h/p/f.bin'' None = ''dl/f.bin''
   \<and> length (display_name (readable_name id (local_filename ''dl'' ''http://h/p/f.bin'' None)))
        \<le> 30
   \<and> display_name (readable_name id (local_filename ''dl'' long_url None)) =
        ''abcdefghijklmnopqrstuvwxyz0...''"
proof -
  note m = example_header_matches
  note t3 = filename_and_display_name [of None "''dl''" long_url id]
  have r: "readable_name id (local_filename ''dl'' long_url None) =
             ''abcdefghijklmnopqrstuvwxyz0123456789.zip''"
    by (simp add: readable_name_def local_filename_def long_url_def path_join_def basename_def
        suffix_to_prefix)
  have "display_name (readable_name id (local_filename ''dl'' long_url None)) =
       (if length (readable_name id (local_filename ''dl'' long_url None)) \<le> 30
        then readable_name id (local_filename ''dl'' long_url None)
        else take 27 (readable_name id (local_filename ''dl'' long_url None)) @ ''...'')"
    using t3 by blast
  then have e: "display_name (readable_name id (local_filename ''dl'' long_url None)) =
        ''abcdefghijklmnopqrstuvwxyz0...''"
    unfolding r by simp
  note t1 = filename_and_display_name [of "Some example_header" "''dl''" "''http://h/p/f.bin''" id]
  note t2 = filename_and_display_name [of None "''dl''" "''http://h/p/f.bin''" id]
  have a: "\<exists>g. matches_filename example_header g
          \<and> local_filename ''dl'' ''http://h/p/f.bin'' (Some example_header) = path_join ''dl'' g"
    using t1 m by blast
  have b: "local_filename ''dl'' ''http://h/p/f.bin'' None =
          path_join ''dl'' (last (split_on CHR ''/'' ''http://h/p/f.bin''))"
    using t2 by blast
  have c: "length (display_name (readable_name id (local_filename ''dl'' ''http://h/p/f.bin'' None)))
          \<le> 30"
    using t2 by blast
  have d: "path_join ''dl'' (last (split_on CHR ''/'' ''http://h/p/f.bin'')) = ''dl/f.bin''"
    by (simp add: path_join_def suffix_to_prefix)
  from m a b [unfolded d] c e show ?thesis by blast
qed


section \<open>Properties of the report file\<close>

lemma write_links_eq: "write_links links f = f @ concat (map (\<lambda>link. link @ [LF]) links)"
  by (induction links arbitrary: f) simp_all

lemma write_blocks_eq: "write_blocks items f = f @ concat (map report_block items)"
  by (induction items f rule: write_blocks.induct) (simp_all add: write_links_eq report_block_def)

lemma universal_newlines_id: "CR \<notin> set s \<Longrightarrow> universal_newlines s = s"
  by (induction s) auto

lemma lines_from_line:
  "LF \<notin> set l \<Longrightarrow> lines_from cur (l @ LF # rest) = (cur @ l @ [LF]) # lines_from [] rest"
  by (induction l arbitrary: cur) auto

lemma lines_from_lines:
  "\<forall>l \<in> set ls. LF \<notin> set l \<Longrightarrow>
   lines_from [] (concat (map (\<lambda>l. l @ [LF]) ls)) = map (\<lambda>l. l @ [LF]) ls"
proof (induction ls)
  case Nil
  then show ?case by simp
next
  case (Cons l ls)
  then show ?case using lines_from_line [of l "[]" "concat (map (\<lambda>l. l @ [LF]) ls)"] by simp
qed

lemma report_block_lines: "report_block kl = concat (map (\<lambda>l. l @ [LF]) (block_lines kl))"
  by (simp add: report_block_def block_lines_def)

lemma concat_blocks_lines:
  "concat (map report_block items) = concat (map (\<lambda>l. l @ [LF]) (concat (map block_lines items)))"
  by (induction items) (simp_all add: report_block_lines)

lemma py_isspace_LF: "py_isspace LF" and py_isspace_CR: "py_isspace CR"
  by (simp_all add: py_isspace_def LF_def CR_def)

lemma py_strip_href:
  assumes "clean_href h"
  shows "py_strip (h @ [LF]) = h"
proof -
  from assms have ns: "\<forall>c \<in> set h. \<not> py_isspace c" and ne: "h \<noteq> []"
    by (auto simp: clean_href_def list_all_iff re_match_http_def)
  from ne ns have "dropWhile py_isspace (h @ [LF]) = h @ [LF]"
    by (cases h) simp_all
  moreover have "dropWhile py_isspace (rev (h @ [LF])) = rev h"
    using ne ns py_isspace_LF by (cases h rule: rev_cases) simp_all
  ultimately show ?thesis by (simp add: py_strip_def)
qed

lemma py_strip_blank: "py_strip [LF] = []"
  by (simp add: py_strip_def py_isspace_LF)

lemma py_strip_keeps_head:
  assumes "\<not> py_isspace c"
  shows "\<exists>t. py_strip (c # s) = c # t"
proof -
  have "dropWhile py_isspace (rev s @ [c]) = dropWhile py_isspace (rev s) @ [c]
        \<or> dropWhile py_isspace (rev s @ [c]) = [c]"
    using assms by (simp add: dropWhile_append)
  then have "\<exists>u. dropWhile py_isspace (rev s @ [c]) = u @ [c]" by auto
  then obtain u where "dropWhile py_isspace (rev s @ [c]) = u @ [c]" ..
  then have "py_strip (c # s) = c # rev u" using assms by (simp add: py_strip_def)
  then show ?thesis ..
qed

lemma header_not_url: "\<not> re_match_http (py_strip ((''--- '' @ k @ '' ---'') @ [LF]))"
proof -
  have "\<not> py_isspace CHR ''-''" by (simp add: py_isspace_def)
  from py_strip_keeps_head [OF this, of "''-- '' @ k @ '' ---'' @ [LF]"]
  obtain t where "py_strip ((''--- '' @ k @ '' ---'') @ [LF]) = CHR ''-'' # t" by auto
  then show ?thesis by (simp add: re_match_http_def)
qed

lemma block_links_read:
  assumes "\<forall>h \<in> set ls. clean_href h"
  shows "map py_strip (filter (\<lambda>line. re_match_http (py_strip line)) (map (\<lambda>l. l @ [LF]) ls)) = ls"
  using assms
proof (induction ls)
  case Nil
  then show ?case by simp
next
  case (Cons h ls)
  then have "clean_href h" by simp
  then have "py_strip (h @ [LF]) = h" "re_match_http h"
    by (simp_all add: py_strip_href) (simp add: clean_href_def)
  with Cons show ?case by simp
qed

lemma block_read:
  assumes "\<forall>h \<in> set (snd kl). clean_href h"
  shows "map py_strip (filter (\<lambda>line. re_match_http (py_strip line))
           (map (\<lambda>l. l @ [LF]) (block_lines kl))) = snd kl"
proof -
  have "\<not> re_match_http (py_strip [LF])" by (simp add: py_strip_blank re_match_http_def)
  then show ?thesis
    using header_not_url [of "fst kl"] block_links_read [OF assms]
    by (simp add: block_lines_def)
qed

lemma blocks_read:
  assumes "\<forall>kl \<in> set items. \<forall>h \<in> set (snd kl). clean_href h"
  shows "map py_strip (filter (\<lambda>line. re_match_http (py_strip line))
           (map (\<lambda>l. l @ [LF]) (concat (map block_lines items)))) = concat (map snd items)"
  using assms
proof (induction items)
  case Nil
  then show ?case by simp
next
  case (Cons kl items)
  then show ?case using block_read [of kl] by simp
qed

lemma clean_href_no_breaks: "clean_href h \<Longrightarrow> LF \<notin> set h \<and> CR \<notin> set h"
  using py_isspace_LF py_isspace_CR by (auto simp: clean_href_def list_all_iff)

lemma block_lines_no_breaks:
  assumes "one_line (fst kl)" "\<forall>h \<in> set (snd kl). clean_href h"
  shows "\<forall>l \<in> set (block_lines kl). LF \<notin> set l \<and> CR \<notin> set l"
  using assms clean_href_no_breaks
  by (auto simp: block_lines_def one_line_def LF_def CR_def)

text \<open>
  C10. The file written by \<open>save_links\<close> is the concatenation, in the order of the
  mapping, of one block per keyword: the line \<^verbatim>\<open>--- {keyword} ---\<close>, one line per href,
  and a blank line. A keyword with no href has the block of its header line and the
  blank line.
\<close>

theorem save_links_blocks:
  "files (save_links keyword_links output_file rw) output_file =
     Some (concat (map report_block keyword_links))
   \<and> length (map report_block keyword_links) = length keyword_links
   \<and> report_block (keyword, links) =
       ''--- '' @ keyword @ '' ---'' @ [LF] @ concat (map (\<lambda>link. link @ [LF]) links) @ [LF]
   \<and> report_block (keyword, []) = ''--- '' @ keyword @ '' ---'' @ [LF, LF]"
proof -
  have written: "write_blocks keyword_links [] = concat (map report_block keyword_links)"
    using write_blocks_eq [of keyword_links "[]"] by simp
  have "files (save_links keyword_links output_file rw) output_file =
          Some (write_blocks keyword_links [])"
    by (simp add: save_links_def)
  with written show ?thesis
    by (simp add: report_block_def)
qed

theorem save_links_blocks_witness:
  "files (save_links example_report ''links.txt'' rw0) ''links.txt'' =
     Some (''--- mario ---'' @ [LF] @ ''http://h/x.zip'' @ [LF] @ ''https://h/y'' @ [LF] @ [LF]
           @ ''--- zelda ---'' @ [LF] @ [LF])
   \<and> length (map report_block example_report) = 2"
  using save_links_blocks [of example_report "''links.txt''" rw0]
  by (simp add: example_report_def report_block_def)

text \<open>
  C7, as amended. For every mapping whose keywords hold no line break and whose hrefs
  each begin with \<^verbatim>\<open>http://\<close> or \<^verbatim>\<open>https://\<close> and hold no white space, reading back
  the file written by \<open>save_links\<close> gives the concatenation of the keywords' href lists,
  in order.
\<close>

theorem save_read_round_trip:
  assumes "clean_report keyword_links"
  shows "read_links output_file (save_links keyword_links output_file rw) =
           Inr (concat (map snd keyword_links))"
proof -
  let ?ls = "concat (map block_lines keyword_links)"
  let ?content = "concat (map (\<lambda>l. l @ [LF]) ?ls)"
  from assms have clean: "\<forall>kl \<in> set keyword_links. one_line (fst kl) \<and> (\<forall>h \<in> set (snd kl). clean_href h)"
    by (simp add: clean_report_def list_all_iff)
  have nb: "\<forall>l \<in> set ?ls. LF \<notin> set l \<and> CR \<notin> set l"
    using clean block_lines_no_breaks by auto
  then have "CR \<notin> set ?content" by (auto simp: LF_def CR_def)
  then have "file_lines ?content = lines_from [] ?content"
    by (simp add: file_lines_def universal_newlines_id)
  also have "\<dots> = map (\<lambda>l. l @ [LF]) ?ls"
    using nb by (intro lines_from_lines) blast
  finally have fl: "file_lines ?content = map (\<lambda>l. l @ [LF]) ?ls" .
  have "\<forall>kl \<in> set keyword_links. \<forall>h \<in> set (snd kl). clean_href h" using clean by blast
  from blocks_read [OF this] fl show ?thesis
    by (simp add: read_links_def save_links_def write_blocks_eq concat_blocks_lines)
qed

theorem save_read_round_trip_witness:
  "clean_report example_report
   \<and> read_links ''links.txt'' (save_links example_report ''links.txt'' rw0) =
       Inr [''http://h/x.zip'', ''https://h/y'']"
proof -
  have c: "clean_report example_report"
    by (simp add: clean_report_def example_report_def one_line_def clean_href_def
        re_match_http_def py_isspace_def LF_def CR_def)
  from save_read_round_trip [OF c, of "''links.txt''" rw0] c show ?thesis
    by (simp add: example_report_def)
qed

text \<open>
  C7 as stated fails when a keyword holds a line break: the rest of its header line is
  a line of its own, and is read back as a link when it begins like a URL.
\<close>

theorem save_read_keyword_counterexample:
  "list_all clean_href [''http://h/x.zip'']
   \<and> read_links ''links.txt''
        (save_links [(split_keyword, [''http://h/x.zip''])] ''links.txt'' rw0) =
       Inr [''http://b ---'', ''http://h/x.zip'']
   \<and> read_links ''links.txt''
        (save_links [(split_keyword, [''http://h/x.zip''])] ''links.txt'' rw0) \<noteq>
       Inr (concat (map snd [(split_keyword, [''http://h/x.zip''])]))"
  by (simp add: read_links_def save_links_def rw0_def split_keyword_def file_lines_def LF_def
      CR_def py_strip_def py_isspace_def re_match_http_def clean_href_def)


end
